theory Spec2Isabelle
  imports Complex_Main
begin

section \<open>The graph store (Wdgraph.py)\<close>

text \<open>
  Node labels are the strings the application uses; handles are natural numbers.
  Weights are Python numbers, modelled as reals (rounding of floats is not modelled).
  The dict \<open>hashmap\<close> is an association list in insertion order, read with \<open>map_of\<close>.
  Every exception of the source is a value of \<open>error\<close>: the three generic
  \<open>Exception\<close>s raised by the source are told apart by their message, the others are
  the exceptions Python itself raises.
\<close>

type_synonym label = string
type_synonym edge = "nat \<times> real"

datatype error =
    UnregisteredNode
  | EdgeNotFound
  | CycleDetected
  | ZeroDivisionError
  | KeyError
  | IndexError

record Wdgraph =
  len :: nat
  hashmap :: "(label \<times> nat) list"
  directmap :: "label list"
  adj_list :: "edge list list"

definition empty_graph :: Wdgraph where
  "empty_graph = \<lparr>len = 0, hashmap = [], directmap = [], adj_list = []\<rparr>"

definition register_node :: "Wdgraph \<Rightarrow> label \<Rightarrow> nat \<times> Wdgraph" where
  "register_node G u =
     (case map_of (hashmap G) u of
        Some n \<Rightarrow> (n, G)
      | None \<Rightarrow>
          (len G,
           G\<lparr>hashmap := hashmap G @ [(u, len G)],
             directmap := directmap G @ [u],
             len := len G + 1,
             adj_list := adj_list G @ [[]]\<rparr>))"

definition map_value :: "Wdgraph \<Rightarrow> label \<Rightarrow> error + nat" where
  "map_value G u =
     (case map_of (hashmap G) u of
        Some n \<Rightarrow> Inr n
      | None \<Rightarrow> Inl UnregisteredNode)"

text \<open>The scan of \<open>raw_set_edge\<close> over one adjacency row: the first entry with the
  target is overwritten, otherwise the pair is appended.\<close>

fun set_row :: "edge list \<Rightarrow> nat \<Rightarrow> real \<Rightarrow> edge list" where
  "set_row [] n2 w = [(n2, w)]"
| "set_row ((target, weight) # es) n2 w =
     (if target = n2 then (target, w) # es else (target, weight) # set_row es n2 w)"

definition raw_set_edge :: "Wdgraph \<Rightarrow> nat \<Rightarrow> nat \<Rightarrow> real \<Rightarrow> error + Wdgraph" where
  "raw_set_edge G n1 n2 w =
     (if n1 < length (adj_list G)
      then Inr (G\<lparr>adj_list := (adj_list G)[n1 := set_row (adj_list G ! n1) n2 w]\<rparr>)
      else Inl IndexError)"

definition set_edge :: "Wdgraph \<Rightarrow> label \<Rightarrow> label \<Rightarrow> real \<Rightarrow> error + Wdgraph" where
  "set_edge G u v w =
     (case register_node G u of (n1, G1) \<Rightarrow>
      case register_node G1 v of (n2, G2) \<Rightarrow>
        raw_set_edge G2 n1 n2 w)"

definition get_edge :: "Wdgraph \<Rightarrow> label \<Rightarrow> label \<Rightarrow> error + real" where
  "get_edge G u v =
     (case map_value G u of Inl e \<Rightarrow> Inl e | Inr n1 \<Rightarrow>
      case map_value G v of Inl e \<Rightarrow> Inl e | Inr n2 \<Rightarrow>
        if n1 < length (adj_list G)
        then (case map_of (adj_list G ! n1) n2 of
                Some weight \<Rightarrow> Inr weight
              | None \<Rightarrow> Inl EdgeNotFound)
        else Inl IndexError)"

definition all_edges :: "Wdgraph \<Rightarrow> edge list" where
  "all_edges G = concat (adj_list G)"

text \<open>\<open>remove_edge\<close> remembers the last entry with the target and then deletes the
  first entry equal to it (\<open>list.remove\<close>).\<close>

definition remove_edge :: "Wdgraph \<Rightarrow> label \<Rightarrow> label \<Rightarrow> error + Wdgraph" where
  "remove_edge G u v =
     (case map_value G u of Inl e \<Rightarrow> Inl e | Inr n1 \<Rightarrow>
      case map_value G v of Inl e \<Rightarrow> Inl e | Inr n2 \<Rightarrow>
        if n1 < length (adj_list G)
        then (case filter (\<lambda>(target, weight). target = n2) (adj_list G ! n1) of
                [] \<Rightarrow> Inl EdgeNotFound
              | m # ms \<Rightarrow>
                  Inr (G\<lparr>adj_list :=
                          (adj_list G)[n1 := remove1 (last (m # ms)) (adj_list G ! n1)]\<rparr>))
        else Inl IndexError)"

definition get_outdegree :: "Wdgraph \<Rightarrow> label \<Rightarrow> error + nat" where
  "get_outdegree G u =
     (case map_value G u of Inl e \<Rightarrow> Inl e | Inr n \<Rightarrow>
        if n < length (adj_list G) then Inr (length (adj_list G ! n)) else Inl IndexError)"

text \<open>Translating the targets of a row back to labels; \<open>directmap[target]\<close> raises
  when the handle is out of range.\<close>

fun label_edges :: "label list \<Rightarrow> edge list \<Rightarrow> error + (label \<times> real) list" where
  "label_edges dm [] = Inr []"
| "label_edges dm ((target, weight) # es) =
     (if target < length dm
      then (case label_edges dm es of
              Inl e \<Rightarrow> Inl e
            | Inr r \<Rightarrow> Inr ((dm ! target, weight) # r))
      else Inl IndexError)"

definition get_outneighbors :: "Wdgraph \<Rightarrow> label \<Rightarrow> error + (label \<times> real) list" where
  "get_outneighbors G u =
     (case map_value G u of Inl e \<Rightarrow> Inl e | Inr n \<Rightarrow>
        if n < length (adj_list G) then label_edges (directmap G) (adj_list G ! n)
        else Inl IndexError)"

text \<open>The double loop of \<open>get_inneighbors\<close>: row \<open>m\<close> contributes one pair for each of
  its entries with target \<open>n\<close>, labelled \<open>directmap[m]\<close>.\<close>

fun in_scan :: "label list \<Rightarrow> nat \<Rightarrow> nat \<Rightarrow> edge list list \<Rightarrow> error + (label \<times> real) list" where
  "in_scan dm n m [] = Inr []"
| "in_scan dm n m (outs # rest) =
     (if filter (\<lambda>(target, weight). target = n) outs \<noteq> [] \<and> \<not> m < length dm
      then Inl IndexError
      else (case in_scan dm n (Suc m) rest of
              Inl e \<Rightarrow> Inl e
            | Inr r \<Rightarrow>
                Inr (map (\<lambda>(target, weight). (dm ! m, weight))
                       (filter (\<lambda>(target, weight). target = n) outs) @ r)))"

definition get_inneighbors :: "Wdgraph \<Rightarrow> label \<Rightarrow> error + (label \<times> real) list" where
  "get_inneighbors G u =
     (case map_value G u of Inl e \<Rightarrow> Inl e | Inr n \<Rightarrow>
        in_scan (directmap G) n 0 (adj_list G))"

text \<open>\<open>create_probability_graph\<close>: the inner loop iterates over the row while
  \<open>raw_set_edge\<close> rewrites its entries in place, so entry \<open>i\<close> is read from the current
  row. A division by zero raises after the earlier rows have been rewritten; the
  function returns the exception (if any) together with the graph as it is then.\<close>

function prob_inner :: "Wdgraph \<Rightarrow> nat \<Rightarrow> real \<Rightarrow> nat \<Rightarrow> error option \<times> Wdgraph" where
  "prob_inner G source tot i =
     (if source < length (adj_list G) \<and> i < length (adj_list G ! source)
      then (case adj_list G ! source ! i of (target, weight) \<Rightarrow>
              if tot = 0 then (Some ZeroDivisionError, G)
              else (case raw_set_edge G source target (weight / tot) of
                      Inl e \<Rightarrow> (Some e, G)
                    | Inr G' \<Rightarrow> prob_inner G' source tot (Suc i)))
      else (None, G))"
  by pat_completeness auto
termination
proof (relation "measure (\<lambda>(G, source, tot, i). length (adj_list G ! source) - i)")
  show "wf (measure (\<lambda>(G, source, tot, i). length (adj_list G ! source) - i))"
    by simp
next
  fix G :: Wdgraph and source :: nat and tot :: real and i :: nat
    and target :: nat and weight :: real and G' :: Wdgraph
  assume a: "source < length (adj_list G) \<and> i < length (adj_list G ! source)"
    and tw: "(target, weight) = adj_list G ! source ! i"
    and nz: "tot \<noteq> 0"
    and r: "raw_set_edge G source target (weight / tot) = Inr G'"
  from a tw have mem: "(target, weight) \<in> set (adj_list G ! source)"
    by (metis nth_mem)
  from r a have "adj_list G' ! source = set_row (adj_list G ! source) target (weight / tot)"
    by (auto simp: raw_set_edge_def split: if_splits)
  moreover have "length (set_row row t w) = length row" if "(t, y) \<in> set row"
    for row :: "edge list" and t y w
    using that by (induction row t w rule: set_row.induct) auto
  ultimately have "length (adj_list G' ! source) = length (adj_list G ! source)"
    using mem by simp
  with a show "((G', source, tot, Suc i), (G, source, tot, i))
      \<in> measure (\<lambda>(G, source, tot, i). length (adj_list G ! source) - i)"
    by auto
qed

fun prob_outer :: "Wdgraph \<Rightarrow> nat list \<Rightarrow> error option \<times> Wdgraph" where
  "prob_outer G [] = (None, G)"
| "prob_outer G (source # rest) =
     (case prob_inner G source (sum_list (map snd (adj_list G ! source))) 0 of
        (Some e, G') \<Rightarrow> (Some e, G')
      | (None, G') \<Rightarrow> prob_outer G' rest)"

definition create_probability_graph :: "Wdgraph \<Rightarrow> error option \<times> Wdgraph" where
  "create_probability_graph G = prob_outer G [0..<length (adj_list G)]"

text \<open>\<open>get_nodes_without_incoming\<close> returns a Python set; it is modelled as a list
  without repetitions, whose order carries no meaning.\<close>

definition get_nodes_without_incoming :: "Wdgraph \<Rightarrow> error + label list" where
  "get_nodes_without_incoming G =
     (case label_edges (directmap G) (concat (adj_list G)) of
        Inl e \<Rightarrow> Inl e
      | Inr with_incoming \<Rightarrow>
          Inr (filter (\<lambda>u. u \<notin> set (map fst with_incoming)) (remdups (directmap G))))"

definition copy :: "Wdgraph \<Rightarrow> Wdgraph" where
  "copy G = \<lparr>len = len G, hashmap = hashmap G, directmap = directmap G,
             adj_list = adj_list G\<rparr>"

section \<open>Topological sort and longest path (app.py)\<close>

text \<open>
  \<open>S\<close> is a Python set, modelled as a list without repetitions. \<open>S.pop()\<close> removes
  an arbitrary element: which one is decided by a parameter \<open>pop\<close>, a function of the
  output so far and of the frontier that returns a position in the frontier. As the
  output grows at every iteration, every sequence of choices is some \<open>pop\<close>.
\<close>

type_synonym chooser = "label list \<Rightarrow> label list \<Rightarrow> nat"

text \<open>\<open>S.add(m)\<close>.\<close>

definition set_add :: "label \<Rightarrow> label list \<Rightarrow> label list" where
  "set_add m S = (if m \<in> set S then S else S @ [m])"

fun kahn_inner :: "Wdgraph \<Rightarrow> label \<Rightarrow> (label \<times> real) list \<Rightarrow> label list
    \<Rightarrow> error + Wdgraph \<times> label list" where
  "kahn_inner G n [] S = Inr (G, S)"
| "kahn_inner G n ((m, weight) # outs) S =
     (case remove_edge G n m of Inl e \<Rightarrow> Inl e | Inr G' \<Rightarrow>
      case get_inneighbors G' m of Inl e \<Rightarrow> Inl e | Inr ins \<Rightarrow>
        kahn_inner G' n outs (if ins = [] then set_add m S else S))"

function kahn_loop :: "chooser \<Rightarrow> Wdgraph \<Rightarrow> label list \<Rightarrow> label list
    \<Rightarrow> error + Wdgraph \<times> label list" where
  "kahn_loop pop G S L =
     (if length S \<noteq> 0
      then (let n = S ! (pop L S mod length S) in
            case get_outneighbors G n of Inl e \<Rightarrow> Inl e | Inr outs \<Rightarrow>
            case kahn_inner G n outs (remove1 n S) of Inl e \<Rightarrow> Inl e | Inr (G', S') \<Rightarrow>
              kahn_loop pop G' S' (L @ [n]))
      else Inr (G, L))"
  by pat_completeness auto
termination
proof (relation "measure (\<lambda>(pop, G, S, L). 2 * length (all_edges G) + length S)")
  show "wf (measure (\<lambda>(pop, G, S, L). 2 * length (all_edges G) + length S))"
    by simp
next
  fix pop :: chooser and G G' :: Wdgraph and S S' L :: "label list" and n :: label
    and outs :: "(label \<times> real) list" and r :: "Wdgraph \<times> label list"
  assume ne: "length S \<noteq> 0" and n: "n = S ! (pop L S mod length S)"
    and inner: "kahn_inner G n outs (remove1 n S) = Inr r" and r: "(G', S') = r"
  have upd: "length (concat (xs[i := row])) + length (xs ! i) = length (concat xs) + length row"
    if "i < length xs" for xs :: "edge list list" and i row
    using that by (induction xs arbitrary: i) (auto split: nat.splits)
  have rm1: "Suc (length (remove1 x xs)) = length xs" if "x \<in> set xs" for x :: 'a and xs
    using that by (induction xs) auto
  have rm: "Suc (length (all_edges H')) = length (all_edges H)"
    if h: "remove_edge H u v = Inr H'" for H H' u v
  proof -
    from h obtain n1 n2 m ms where n1: "n1 < length (adj_list H)"
      and f: "filter (\<lambda>(target, weight). target = n2) (adj_list H ! n1) = m # ms"
      and H': "adj_list H' = (adj_list H)[n1 := remove1 (last (m # ms)) (adj_list H ! n1)]"
      by (auto simp: remove_edge_def split: sum.splits if_splits list.splits)
    have "last (m # ms) \<in> set (filter (\<lambda>(target, weight). target = n2) (adj_list H ! n1))"
      unfolding f by (rule last_in_set) simp
    then have mem: "last (m # ms) \<in> set (adj_list H ! n1)"
      by simp
    then have "Suc (length (remove1 (last (m # ms)) (adj_list H ! n1))) = length (adj_list H ! n1)"
      by (rule rm1)
    with upd[OF n1, of "remove1 (last (m # ms)) (adj_list H ! n1)"] H'
    show ?thesis
      by (simp add: all_edges_def)
  qed
  have inner_le: "2 * length (all_edges H') + length T' \<le> 2 * length (all_edges H) + length T"
    if "kahn_inner H u os T = Inr (H', T')" for H H' u os T T'
    using that
  proof (induction os arbitrary: H T)
    case Nil
    then show ?case by simp
  next
    case (Cons a os)
    obtain m w where a: "a = (m, w)" by (cases a)
    from Cons.prems a obtain H1 and ins :: "(label \<times> real) list" where h1: "remove_edge H u m = Inr H1"
      and rest: "kahn_inner H1 u os (if ins = [] then set_add m T else T) = Inr (H', T')"
      by (auto split: sum.splits)
    from Cons.IH[OF rest] rm[OF h1] show ?case
      by (auto simp: set_add_def split: if_splits)
  qed
  from ne n have "n \<in> set S"
    by simp
  then have "Suc (length (remove1 n S)) = length S"
    by (rule rm1)
  with inner_le[of G n outs "remove1 n S" G' S'] inner r
  show "((pop, G', S', L @ [n]), (pop, G, S, L))
      \<in> measure (\<lambda>(pop, G, S, L). 2 * length (all_edges G) + length S)"
    by auto
qed

definition kahns_algorithm :: "chooser \<Rightarrow> Wdgraph \<Rightarrow> error + label list" where
  "kahns_algorithm pop graph =
     (let G = copy graph in
      case get_nodes_without_incoming G of Inl e \<Rightarrow> Inl e | Inr S \<Rightarrow>
      case kahn_loop pop G S [] of Inl e \<Rightarrow> Inl e | Inr (G', L) \<Rightarrow>
        if all_edges G' \<noteq> [] then Inl CycleDetected else Inr L)"

text \<open>The dict \<open>dist\<close> is a map from labels to numbers; reading a missing key raises
  \<open>KeyError\<close>. The inner loop of the distance pass starts from \<open>max_dist = 0\<close>.\<close>

fun dist_inner :: "(label \<rightharpoonup> real) \<Rightarrow> (label \<times> real) list \<Rightarrow> real \<Rightarrow> label option
    \<Rightarrow> error + real \<times> label option" where
  "dist_inner dists [] max_dist max_source = Inr (max_dist, max_source)"
| "dist_inner dists ((source, weight) # ins) max_dist max_source =
     (case dists source of None \<Rightarrow> Inl KeyError | Some ds \<Rightarrow>
        if ds + weight > max_dist
        then dist_inner dists ins (ds + weight) (Some source)
        else dist_inner dists ins max_dist max_source)"

fun dist_loop :: "Wdgraph \<Rightarrow> (label \<rightharpoonup> real) \<Rightarrow> label list \<Rightarrow> error + (label \<rightharpoonup> real)" where
  "dist_loop G dists [] = Inr dists"
| "dist_loop G dists (target # rest) =
     (case get_inneighbors G target of Inl e \<Rightarrow> Inl e | Inr ins \<Rightarrow>
      case dist_inner dists ins 0 None of Inl e \<Rightarrow> Inl e | Inr (max_dist, max_source) \<Rightarrow>
        dist_loop G (dists(target \<mapsto> max_dist)) rest)"

text \<open>The inner loop of the backward walk starts from \<open>max_dist = float("-inf")\<close>,
  written \<open>None\<close>: every number is greater. \<open>max_node\<close> stays \<open>None\<close> when the node has
  no inneighbor.\<close>

fun back_inner :: "(label \<rightharpoonup> real) \<Rightarrow> (label \<times> real) list \<Rightarrow> real option \<Rightarrow> label option
    \<Rightarrow> error + label option" where
  "back_inner dists [] max_dist max_node = Inr max_node"
| "back_inner dists ((source, weight) # ins) max_dist max_node =
     (case dists source of None \<Rightarrow> Inl KeyError | Some d \<Rightarrow>
        if (case max_dist of None \<Rightarrow> True | Some md \<Rightarrow> d > md)
        then back_inner dists ins (Some d) (Some source)
        else back_inner dists ins max_dist max_node)"

text \<open>The loop \<open>while current != "s"\<close>. \<open>current\<close> may have become Python's \<open>None\<close>,
  which is no registered label, so \<open>get_inneighbors\<close> raises on it. The loop is a
  partial function: \<open>None\<close> as its value means that it does not return.\<close>

partial_function (option) back_loop :: "Wdgraph \<Rightarrow> (label \<rightharpoonup> real) \<Rightarrow> label option
    \<Rightarrow> label option list \<Rightarrow> (error + label option list) option" where
  "back_loop G dists current critical_path =
     (if current \<noteq> Some ''s''
      then (case (case current of None \<Rightarrow> Inl UnregisteredNode
                  | Some c \<Rightarrow> get_inneighbors G c) of
              Inl e \<Rightarrow> Some (Inl e)
            | Inr ins \<Rightarrow>
                (case back_inner dists ins None None of
                   Inl e \<Rightarrow> Some (Inl e)
                 | Inr max_node \<Rightarrow>
                     back_loop G dists max_node (critical_path @ [max_node])))
      else Some (Inr critical_path))"

definition solve_max_path :: "chooser \<Rightarrow> Wdgraph
    \<Rightarrow> (error + real \<times> label option list) option" where
  "solve_max_path pop G =
     (case kahns_algorithm pop G of Inl e \<Rightarrow> Some (Inl e) | Inr sorted_nodes \<Rightarrow>
      case dist_loop G (map_of (zip sorted_nodes (replicate (len G) 0))) sorted_nodes of
        Inl e \<Rightarrow> Some (Inl e)
      | Inr dists \<Rightarrow>
          (case back_loop G dists (Some ''t'') [Some ''t''] of
             None \<Rightarrow> None
           | Some (Inl e) \<Rightarrow> Some (Inl e)
           | Some (Inr critical_path) \<Rightarrow>
               (case dists ''t'' of
                  None \<Rightarrow> Some (Inl KeyError)
                | Some dt \<Rightarrow> Some (Inr (dt, rev critical_path)))))"

section \<open>Well-formed graphs, edges and reachable states\<close>

text \<open>The representation invariant of a graph: the three containers have the same
  size, the dict maps each registered label to its position in \<open>directmap\<close>, labels are
  not repeated, every target is a handle and no row names a target twice.\<close>

definition wf_graph :: "Wdgraph \<Rightarrow> bool" where
  "wf_graph G \<longleftrightarrow>
     length (directmap G) = len G \<and> length (adj_list G) = len G \<and>
     hashmap G = zip (directmap G) [0..<len G] \<and> distinct (directmap G) \<and>
     (\<forall>row \<in> set (adj_list G). distinct (map fst row) \<and> (\<forall>e \<in> set row. fst e < len G))"

text \<open>Whether the edge \<open>u \<rightarrow> v\<close> exists, as \<open>get_edge\<close> sees it.\<close>

definition has_edge :: "Wdgraph \<Rightarrow> label \<Rightarrow> label \<Rightarrow> bool" where
  "has_edge G u v = (case get_edge G u v of Inl e \<Rightarrow> False | Inr weight \<Rightarrow> True)"

definition single_edge :: "Wdgraph \<Rightarrow> bool" where
  "single_edge G \<longleftrightarrow> (\<forall>row \<in> set (adj_list G). distinct (map fst row))"

text \<open>The graphs that the operations of the store build from the empty graph. An
  operation that raises leaves the graph as it is, except
  \<open>create_probability_graph\<close>, which may raise after rewriting some rows.\<close>

inductive reachable :: "Wdgraph \<Rightarrow> bool" where
  reach_empty: "reachable empty_graph"
| reach_register: "reachable G \<Longrightarrow> reachable (snd (register_node G u))"
| reach_set_edge: "reachable G \<Longrightarrow> set_edge G u v w = Inr G' \<Longrightarrow> reachable G'"
| reach_remove_edge: "reachable G \<Longrightarrow> remove_edge G u v = Inr G' \<Longrightarrow> reachable G'"
| reach_probability: "reachable G \<Longrightarrow> reachable (snd (create_probability_graph G))"
| reach_copy: "reachable G \<Longrightarrow> reachable (copy G)"

declare prob_inner.simps [simp del]
declare kahn_loop.simps [simp del]

section \<open>Properties of the graph store\<close>

lemma map_of_zip_upt:
  "distinct xs \<Longrightarrow> map_of (zip xs [0..<length xs]) u = Some n \<longleftrightarrow> n < length xs \<and> xs ! n = u"
proof (induction xs arbitrary: n rule: rev_induct)
  case Nil
  then show ?case by simp
next
  case (snoc x xs)
  then show ?case
    by (auto simp: nth_append map_add_Some_iff less_Suc_eq dest: map_of_SomeD set_zip_leftD)
qed

lemma wf_handle:
  "wf_graph G \<Longrightarrow> map_of (hashmap G) u = Some n \<longleftrightarrow> n < len G \<and> directmap G ! n = u"
  using map_of_zip_upt[of "directmap G" u n] by (auto simp: wf_graph_def)

lemma wf_handle_None:
  "wf_graph G \<Longrightarrow> map_of (hashmap G) u = None \<longleftrightarrow> u \<notin> set (directmap G)"
  by (auto simp: wf_graph_def map_of_zip_is_None)

lemma wf_empty: "wf_graph empty_graph"
  by (simp add: wf_graph_def empty_graph_def)

lemma register_new:
  "map_of (hashmap G) u = None \<Longrightarrow>
   register_node G u =
     (len G, G\<lparr>hashmap := hashmap G @ [(u, len G)], directmap := directmap G @ [u],
               len := len G + 1, adj_list := adj_list G @ [[]]\<rparr>)"
  by (simp add: register_node_def)

lemma register_old:
  "map_of (hashmap G) u = Some n \<Longrightarrow> register_node G u = (n, G)"
  by (simp add: register_node_def)

lemma wf_register:
  assumes "wf_graph G"
  shows "wf_graph (snd (register_node G u))"
proof (cases "map_of (hashmap G) u")
  case None
  with assms have "u \<notin> set (directmap G)" by (simp add: wf_handle_None)
  with assms show ?thesis
    unfolding register_new[OF None] by (auto simp: wf_graph_def less_Suc_eq)
next
  case (Some n)
  with assms show ?thesis by (simp add: register_old)
qed

lemma register_handle:
  assumes "wf_graph G"
  shows "map_of (hashmap (snd (register_node G u))) u = Some (fst (register_node G u))"
proof (cases "map_of (hashmap G) u")
  case None
  define G1 where "G1 = snd (register_node G u)"
  have wf1: "wf_graph G1"
    unfolding G1_def by (rule wf_register[OF assms])
  have "directmap G1 = directmap G @ [u]" "len G1 = Suc (len G)" "fst (register_node G u) = len G"
    unfolding G1_def register_new[OF None] by simp_all
  moreover have "length (directmap G) = len G"
    using assms by (simp add: wf_graph_def)
  ultimately show ?thesis
    using wf_handle[OF wf1, of u "len G"] by (simp add: G1_def) (metis nth_append_length)
next
  case (Some n)
  then show ?thesis by (simp add: register_old)
qed


lemma handle_inj:
  "wf_graph G \<Longrightarrow> map_of (hashmap G) x = Some k \<Longrightarrow> map_of (hashmap G) y = Some k \<Longrightarrow> x = y"
  by (auto simp: wf_handle)

lemma handle_bound:
  "wf_graph G \<Longrightarrow> map_of (hashmap G) x = Some k \<Longrightarrow> k < length (adj_list G)"
  using wf_handle[of G x k] by (simp add: wf_graph_def)

lemma register_keeps:
  "map_of (hashmap G) x = Some k \<Longrightarrow> map_of (hashmap (snd (register_node G u))) x = Some k"
  by (cases "map_of (hashmap G) u") (auto simp: register_new register_old)

lemma register_back:
  "map_of (hashmap (snd (register_node G u))) x = Some k \<Longrightarrow> x \<noteq> u \<Longrightarrow>
   map_of (hashmap G) x = Some k"
  by (cases "map_of (hashmap G) u")
     (auto simp: register_new register_old map_add_Some_iff split: if_splits)

lemma register_row_old:
  "k < length (adj_list G) \<Longrightarrow> adj_list (snd (register_node G u)) ! k = adj_list G ! k"
  by (cases "map_of (hashmap G) u") (auto simp: register_new register_old nth_append)

lemma register_row_new:
  "wf_graph G \<Longrightarrow> map_of (hashmap G) u = None \<Longrightarrow>
   adj_list (snd (register_node G u)) ! fst (register_node G u) = []"
  by (simp add: register_new wf_graph_def nth_append)

lemma register_fresh_handle:
  "wf_graph G \<Longrightarrow> map_of (hashmap G) u = None \<Longrightarrow> fst (register_node G u) = len G"
  by (simp add: register_new)

lemma get_edge_Inr:
  assumes "wf_graph G"
  shows "get_edge G x y = Inr r \<longleftrightarrow>
    (\<exists>i j. map_of (hashmap G) x = Some i \<and> map_of (hashmap G) y = Some j \<and>
           map_of (adj_list G ! i) j = Some r)"
  using handle_bound[OF assms]
  by (auto simp: get_edge_def map_value_def split: option.splits)

lemma row_targets:
  "wf_graph G \<Longrightarrow> i < length (adj_list G) \<Longrightarrow> map_of (adj_list G ! i) j = Some r \<Longrightarrow> j < len G"
  using nth_mem[of i "adj_list G"] by (fastforce simp: wf_graph_def dest!: map_of_SomeD)

lemma register_get_edge:
  assumes "wf_graph G"
  shows "get_edge (snd (register_node G u)) x y = Inr r \<longleftrightarrow> get_edge G x y = Inr r"
proof (cases "map_of (hashmap G) u")
  case (Some n)
  then show ?thesis by (simp add: register_old)
next
  case None
  let ?G1 = "snd (register_node G u)"
  have wf1: "wf_graph ?G1" by (rule wf_register[OF assms])
  have lenG: "length (adj_list G) = len G" using assms by (simp add: wf_graph_def)
  have hu: "map_of (hashmap ?G1) u = Some (len G)"
    using register_handle[OF assms, of u] register_fresh_handle[OF assms None] by simp
  show ?thesis
  proof
    assume "get_edge G x y = Inr r"
    then obtain i j where ij: "map_of (hashmap G) x = Some i" "map_of (hashmap G) y = Some j"
      "map_of (adj_list G ! i) j = Some r"
      using get_edge_Inr[OF assms] by blast
    with handle_bound[OF assms ij(1)] show "get_edge ?G1 x y = Inr r"
      unfolding get_edge_Inr[OF wf1] by (auto simp: register_keeps register_row_old)
  next
    assume "get_edge ?G1 x y = Inr r"
    then obtain i j where ij: "map_of (hashmap ?G1) x = Some i" "map_of (hashmap ?G1) y = Some j"
      "map_of (adj_list ?G1 ! i) j = Some r"
      using get_edge_Inr[OF wf1] by blast
    have xu: "x \<noteq> u"
    proof
      assume "x = u"
      with ij(1) hu have "i = len G" by simp
      with ij(3) register_row_new[OF assms None] register_fresh_handle[OF assms None]
      show False by simp
    qed
    then have hx: "map_of (hashmap G) x = Some i" using ij(1) by (rule register_back[rotated])
    then have ib: "i < length (adj_list G)" by (rule handle_bound[OF assms])
    with ij(3) have row: "map_of (adj_list G ! i) j = Some r" by (simp add: register_row_old)
    then have "j < len G" by (rule row_targets[OF assms ib])
    with ij(2) hu have "y \<noteq> u" by auto
    then have "map_of (hashmap G) y = Some j" using ij(2) by (rule register_back[rotated])
    with hx row show "get_edge G x y = Inr r"
      unfolding get_edge_Inr[OF assms] by blast
  qed
qed

lemma map_of_set_row: "map_of (set_row row n2 w) j = (if j = n2 then Some w else map_of row j)"
  by (induction row n2 w rule: set_row.induct) auto

lemma set_row_fst: "fst ` set (set_row row n2 w) = insert n2 (fst ` set row)"
  by (induction row n2 w rule: set_row.induct) auto

lemma set_row_distinct: "distinct (map fst row) \<Longrightarrow> distinct (map fst (set_row row n2 w))"
proof (induction row n2 w rule: set_row.induct)
  case (1 n2 w)
  then show ?case by simp
next
  case (2 target weight es n2 w)
  then show ?case
    by (auto simp: set_row_fst)
qed

lemma set_row_length:
  "length (set_row row n2 w) = (if n2 \<in> fst ` set row then length row else Suc (length row))"
  by (induction row n2 w rule: set_row.induct) auto

lemma set_row_bound:
  "\<forall>e\<in>set row. fst e < k \<Longrightarrow> n2 < k \<Longrightarrow> \<forall>e\<in>set (set_row row n2 w). fst e < k"
  by (induction row n2 w rule: set_row.induct) auto

lemma wf_adj_update:
  "wf_graph G \<Longrightarrow> distinct (map fst row) \<Longrightarrow> \<forall>e\<in>set row. fst e < len G \<Longrightarrow>
   wf_graph (G\<lparr>adj_list := (adj_list G)[n1 := row]\<rparr>)"
  by (auto simp: wf_graph_def dest!: set_update_subset_insert[THEN subsetD])

lemma wf_row:
  "wf_graph G \<Longrightarrow> n1 < len G \<Longrightarrow>
   distinct (map fst (adj_list G ! n1)) \<and> (\<forall>e\<in>set (adj_list G ! n1). fst e < len G)"
  using nth_mem[of n1 "adj_list G"] by (auto simp: wf_graph_def)

lemma wf_raw_set_edge:
  assumes "wf_graph G" "n1 < len G" "n2 < len G"
  shows "\<exists>G'. raw_set_edge G n1 n2 w = Inr G' \<and> wf_graph G' \<and> hashmap G' = hashmap G \<and>
     directmap G' = directmap G \<and> len G' = len G \<and>
     adj_list G' = (adj_list G)[n1 := set_row (adj_list G ! n1) n2 w]"
proof -
  have l: "n1 < length (adj_list G)" using assms by (simp add: wf_graph_def)
  have "wf_graph (G\<lparr>adj_list := (adj_list G)[n1 := set_row (adj_list G ! n1) n2 w]\<rparr>)"
    using assms wf_row[OF assms(1,2)]
    by (intro wf_adj_update set_row_distinct set_row_bound) auto
  with l show ?thesis by (simp add: raw_set_edge_def)
qed

lemma register_len:
  "len G \<le> len (snd (register_node G u))"
  by (cases "map_of (hashmap G) u") (auto simp: register_new register_old)

lemma register_fst_bound:
  assumes "wf_graph G"
  shows "fst (register_node G u) < len (snd (register_node G u))"
  using register_handle[OF assms, of u] wf_handle[OF wf_register[OF assms, of u]]
  by simp

text \<open>What \<open>set_edge\<close> does to a well-formed graph.\<close>

lemma set_edge_wf:
  assumes "wf_graph G"
  shows "\<exists>G'. set_edge G u v w = Inr G' \<and> wf_graph G' \<and>
    (\<forall>x y r. get_edge G' x y = Inr r \<longleftrightarrow>
        (if x = u \<and> y = v then r = w else get_edge G x y = Inr r))"
proof -
  obtain n1 G1 where r1: "register_node G u = (n1, G1)" by (cases "register_node G u")
  obtain n2 G2 where r2: "register_node G1 v = (n2, G2)" by (cases "register_node G1 v")
  have wf1: "wf_graph G1" using wf_register[OF assms, of u] r1 by simp
  have wf2: "wf_graph G2" using wf_register[OF wf1, of v] r2 by simp
  have h1: "map_of (hashmap G1) u = Some n1" using register_handle[OF assms, of u] r1 by simp
  have h2: "map_of (hashmap G2) v = Some n2" using register_handle[OF wf1, of v] r2 by simp
  have h1': "map_of (hashmap G2) u = Some n1" using register_keeps[OF h1, of v] r2 by simp
  have b1: "n1 < len G2" using h1' wf_handle[OF wf2] by simp
  have b2: "n2 < len G2" using h2 wf_handle[OF wf2] by simp
  from wf_raw_set_edge[OF wf2 b1 b2, of w] obtain G' where
    G': "raw_set_edge G2 n1 n2 w = Inr G'" "wf_graph G'" "hashmap G' = hashmap G2"
      "adj_list G' = (adj_list G2)[n1 := set_row (adj_list G2 ! n1) n2 w]"
    by blast
  have se: "set_edge G u v w = Inr G'"
    by (simp add: set_edge_def r1 r2 G'(1))
  have l2: "length (adj_list G2) = len G2" using wf2 by (simp add: wf_graph_def)
  have g2: "get_edge G2 x y = Inr r \<longleftrightarrow> get_edge G x y = Inr r" for x y r
    using register_get_edge[OF wf1, of v x y r] register_get_edge[OF assms, of u x y r] r1 r2
    by simp
  have "get_edge G' x y = Inr r \<longleftrightarrow> (if x = u \<and> y = v then r = w else get_edge G x y = Inr r)"
    for x y r
  proof (cases "x = u \<and> y = v")
    case True
    then show ?thesis
      unfolding get_edge_Inr[OF G'(2)] G'(3,4) using h1' h2 b1 l2
      by (auto simp: map_of_set_row)
  next
    case False
    have "get_edge G' x y = Inr r \<longleftrightarrow> get_edge G2 x y = Inr r"
      unfolding get_edge_Inr[OF G'(2)] G'(3,4) get_edge_Inr[OF wf2]
    proof (intro iff_exI conj_cong refl)
      fix i j
      assume i: "map_of (hashmap G2) x = Some i" and j: "map_of (hashmap G2) y = Some j"
      have "\<not> (i = n1 \<and> j = n2)"
        using False handle_inj[OF wf2 i] handle_inj[OF wf2 j] h1' h2 by blast
      then show "(map_of ((adj_list G2)[n1 := set_row (adj_list G2 ! n1) n2 w] ! i) j = Some r) =
          (map_of (adj_list G2 ! i) j = Some r)"
        using b1 l2 by (cases "i = n1") (auto simp: map_of_set_row)
    qed
    with False show ?thesis by (auto simp: g2)
  qed
  with se G'(2) show ?thesis by blast
qed

lemma distinct_map_remove1:
  "distinct (map f xs) \<Longrightarrow> distinct (map f (remove1 x xs))"
proof (induction xs)
  case Nil
  then show ?case by simp
next
  case (Cons a xs)
  have "f ` set (remove1 x xs) \<subseteq> f ` set xs"
    using set_remove1_subset[of x xs] by blast
  with Cons show ?case by auto
qed

lemma wf_remove1_row:
  assumes "wf_graph G" "n1 < length (adj_list G)"
  shows "wf_graph (G\<lparr>adj_list := (adj_list G)[n1 := remove1 x (adj_list G ! n1)]\<rparr>)"
proof -
  from assms have "n1 < len G" by (simp add: wf_graph_def)
  from wf_row[OF assms(1) this]
  have "distinct (map fst (remove1 x (adj_list G ! n1)))"
    and "\<forall>e\<in>set (remove1 x (adj_list G ! n1)). fst e < len G"
    using set_remove1_subset[of x "adj_list G ! n1"] by (auto simp: distinct_map_remove1)
  from wf_adj_update[OF assms(1) this] show ?thesis .
qed

lemma wf_remove_edge:
  assumes "wf_graph G" "remove_edge G u v = Inr G'"
  shows "wf_graph G' \<and> hashmap G' = hashmap G \<and> directmap G' = directmap G \<and> len G' = len G"
  using assms(2)
  by (auto simp: remove_edge_def split: sum.splits if_splits list.splits
      intro!: wf_remove1_row[OF assms(1)])

lemma wf_prob_inner:
  "wf_graph G \<Longrightarrow> wf_graph (snd (prob_inner G source tot i))"
proof (induction G source tot i rule: prob_inner.induct)
  case (1 G source tot i)
  show ?case
  proof (cases "source < length (adj_list G) \<and> i < length (adj_list G ! source)")
    case False
    with "1.prems" show ?thesis by (auto simp: prob_inner.simps[of G])
  next
    case True
    obtain target weight where tw: "adj_list G ! source ! i = (target, weight)"
      by (cases "adj_list G ! source ! i")
    show ?thesis
    proof (cases "tot = 0")
      case True
      with \<open>source < length (adj_list G) \<and> i < length (adj_list G ! source)\<close> tw "1.prems"
      show ?thesis by (simp add: prob_inner.simps)
    next
      case False
      from True "1.prems" have sb: "source < len G" by (simp add: wf_graph_def)
      from True tw have "(target, weight) \<in> set (adj_list G ! source)"
        by (metis nth_mem)
      with wf_row[OF "1.prems" sb] have tb: "target < len G" by auto
      from wf_raw_set_edge[OF "1.prems" sb tb, of "weight / tot"] obtain G' where
        G': "raw_set_edge G source target (weight / tot) = Inr G'" "wf_graph G'"
        by blast
      from "1.IH"[OF True tw[symmetric] False G'(1) G'(2)] True tw False G'(1)
      show ?thesis by (simp add: prob_inner.simps[of G])
    qed
  qed
qed

lemma wf_prob_outer:
  "wf_graph G \<Longrightarrow> wf_graph (snd (prob_outer G sources))"
proof (induction sources arbitrary: G)
  case Nil
  then show ?case by simp
next
  case (Cons source rest)
  let ?r = "prob_inner G source (sum_list (map snd (adj_list G ! source))) 0"
  have w: "wf_graph (snd ?r)" by (rule wf_prob_inner[OF Cons.prems])
  show ?case
  proof (cases ?r)
    case (Pair e G1)
    with w Cons.IH[of G1] show ?thesis
      by (cases e) auto
  qed
qed

lemma wf_create_probability_graph:
  "wf_graph G \<Longrightarrow> wf_graph (snd (create_probability_graph G))"
  by (simp add: create_probability_graph_def wf_prob_outer)

lemma copy_id: "copy G = G"
  by (simp add: copy_def)

lemma reachable_wf: "reachable G \<Longrightarrow> wf_graph G"
proof (induction rule: reachable.induct)
  case reach_empty
  show ?case by (rule wf_empty)
next
  case (reach_register G u)
  then show ?case by (simp add: wf_register)
next
  case (reach_set_edge G u v w G')
  with set_edge_wf[of G u v w] show ?case by auto
next
  case (reach_remove_edge G u v G')
  then show ?case using wf_remove_edge by blast
next
  case (reach_probability G)
  then show ?case by (simp add: wf_create_probability_graph)
next
  case (reach_copy G)
  then show ?case by (simp add: copy_id)
qed

lemma set_edge_overwrite_outdegree:
  assumes "wf_graph G" "get_edge G u v = Inr r"
  shows "\<exists>G' d. set_edge G u v w = Inr G' \<and> get_outdegree G u = Inr d \<and> get_outdegree G' u = Inr d"
proof -
  from assms obtain i j where i: "map_of (hashmap G) u = Some i"
    and j: "map_of (hashmap G) v = Some j" and row: "map_of (adj_list G ! i) j = Some r"
    unfolding get_edge_Inr[OF assms(1)] by blast
  have ib: "i < length (adj_list G)" by (rule handle_bound[OF assms(1) i])
  from row have "j \<in> fst ` set (adj_list G ! i)"
    by (force dest: map_of_SomeD)
  then have "length (set_row (adj_list G ! i) j w) = length (adj_list G ! i)"
    by (simp add: set_row_length)
  with i j ib show ?thesis
    by (simp add: set_edge_def register_old raw_set_edge_def get_outdegree_def map_value_def)
qed

text \<open>
  C6. On a well-formed graph, \<open>set_edge(u, v, w)\<close> succeeds and \<open>get_edge(u, v)\<close> then
  returns \<open>w\<close>; a second \<open>set_edge(u, v, w2)\<close> succeeds, makes \<open>get_edge(u, v)\<close> return
  \<open>w2\<close>, leaves \<open>get_outdegree(u)\<close> as it was (no duplicate entry), and neither call
  changes the weight that \<open>get_edge\<close> returns for any other pair. The labels need not be
  distinct.
\<close>

theorem set_edge_get_edge_overwrite:
  assumes "wf_graph G"
  shows "\<exists>G1 G2 d. set_edge G u v w = Inr G1 \<and> get_edge G1 u v = Inr w \<and>
     set_edge G1 u v w2 = Inr G2 \<and> get_edge G2 u v = Inr w2 \<and>
     get_outdegree G1 u = Inr d \<and> get_outdegree G2 u = Inr d \<and>
     (\<forall>x y r. (x, y) \<noteq> (u, v) \<longrightarrow> (get_edge G1 x y = Inr r \<longleftrightarrow> get_edge G x y = Inr r)) \<and>
     (\<forall>x y r. (x, y) \<noteq> (u, v) \<longrightarrow> (get_edge G2 x y = Inr r \<longleftrightarrow> get_edge G1 x y = Inr r))"
proof -
  from set_edge_wf[OF assms, of u v w] obtain G1 where
    G1: "set_edge G u v w = Inr G1" "wf_graph G1"
      "\<And>x y r. get_edge G1 x y = Inr r \<longleftrightarrow>
          (if x = u \<and> y = v then r = w else get_edge G x y = Inr r)"
    by blast
  have e1: "get_edge G1 u v = Inr w" by (simp add: G1(3))
  from set_edge_wf[OF G1(2), of u v w2] obtain G2 where
    G2: "set_edge G1 u v w2 = Inr G2" "wf_graph G2"
      "\<And>x y r. get_edge G2 x y = Inr r \<longleftrightarrow>
          (if x = u \<and> y = v then r = w2 else get_edge G1 x y = Inr r)"
    by blast
  have e2: "get_edge G2 u v = Inr w2" by (simp add: G2(3))
  from set_edge_overwrite_outdegree[OF G1(2) e1, of w2] G2(1) obtain d where
    d: "get_outdegree G1 u = Inr d" "get_outdegree G2 u = Inr d"
    by auto
  have o1: "\<forall>x y r. (x, y) \<noteq> (u, v) \<longrightarrow> (get_edge G1 x y = Inr r \<longleftrightarrow> get_edge G x y = Inr r)"
    by (auto simp: G1(3))
  have o2: "\<forall>x y r. (x, y) \<noteq> (u, v) \<longrightarrow> (get_edge G2 x y = Inr r \<longleftrightarrow> get_edge G1 x y = Inr r)"
    by (auto simp: G2(3))
  from G1(1) e1 G2(1) e2 d o1 o2 show ?thesis by blast
qed

theorem set_edge_get_edge_overwrite_witness:
  "wf_graph empty_graph \<and>
   (\<exists>G1 G2 d. set_edge empty_graph ''a'' ''b'' 3 = Inr G1 \<and> get_edge G1 ''a'' ''b'' = Inr 3 \<and>
     set_edge G1 ''a'' ''b'' 5 = Inr G2 \<and> get_edge G2 ''a'' ''b'' = Inr 5 \<and>
     get_outdegree G1 ''a'' = Inr d \<and> get_outdegree G2 ''a'' = Inr d \<and>
     (\<forall>x y r. (x, y) \<noteq> (''a'', ''b'') \<longrightarrow>
        (get_edge G1 x y = Inr r \<longleftrightarrow> get_edge empty_graph x y = Inr r)) \<and>
     (\<forall>x y r. (x, y) \<noteq> (''a'', ''b'') \<longrightarrow>
        (get_edge G2 x y = Inr r \<longleftrightarrow> get_edge G1 x y = Inr r)))"
proof -
  have h: "wf_graph empty_graph"
    by (simp add: wf_graph_def empty_graph_def)
  show ?thesis
    using h set_edge_get_edge_overwrite[OF h, of "''a''" "''b''" 3 5] by simp
qed

text \<open>
  C7. In every graph that \<open>register_node\<close>, \<open>set_edge\<close>, \<open>remove_edge\<close>,
  \<open>create_probability_graph\<close> and \<open>copy\<close> build from the empty graph, no adjacency row
  names the same target twice.
\<close>

theorem reachable_single_edge:
  "reachable G \<Longrightarrow> single_edge G"
  using reachable_wf[of G] by (simp add: wf_graph_def single_edge_def)

theorem reachable_single_edge_witness:
  "reachable \<lparr>len = 2, hashmap = [(''a'', 0), (''b'', 1)], directmap = [''a'', ''b''],
              adj_list = [[(1, 7)], []]\<rparr> \<and>
   single_edge \<lparr>len = 2, hashmap = [(''a'', 0), (''b'', 1)], directmap = [''a'', ''b''],
              adj_list = [[(1, 7)], []]\<rparr>"
proof -
  have s: "set_edge empty_graph ''a'' ''b'' 7 =
      Inr \<lparr>len = 2, hashmap = [(''a'', 0), (''b'', 1)], directmap = [''a'', ''b''],
              adj_list = [[(1, 7)], []]\<rparr>"
    by (simp add: set_edge_def register_node_def raw_set_edge_def empty_graph_def)
  have r: "reachable \<lparr>len = 2, hashmap = [(''a'', 0), (''b'', 1)], directmap = [''a'', ''b''],
              adj_list = [[(1, 7)], []]\<rparr>"
    by (rule reach_set_edge[OF reach_empty s])
  show ?thesis
    using r reachable_single_edge[OF r] by simp
qed

end
